theory Spec2Isabelle
  imports Main
begin

section \<open>Card number validation and classification (go.stripe)\<close>

text \<open>
  A Go \<open>string\<close> is a sequence of bytes; it is modelled as \<^typ>\<open>string\<close>, a list of
  8-bit \<^typ>\<open>char\<close>s. \<open>len\<close> is \<^const>\<open>length\<close>, and a slice expression
  \<open>s[lo:hi]\<close> panics when its bounds do not fit.
\<close>

subsection \<open>Card brands\<close>

definition AmericanExpress :: string where "AmericanExpress = ''American Express''"
definition DinersClub :: string where "DinersClub = ''Diners Club''"
definition Discover :: string where "Discover = ''Discover''"
definition JCB :: string where "JCB = ''JCB''"
definition MasterCard :: string where "MasterCard = ''MasterCard''"
definition Visa :: string where "Visa = ''Visa''"
definition UnknownCard :: string where "UnknownCard = ''Unknown''"

subsection \<open>Go run-time and library functions used by the source\<close>

text \<open>
  The run-time panic of a slice expression whose upper bound exceeds the length
  (\<open>slice bounds out of range [:hi] with length n\<close>) or whose bounds are inverted.
\<close>

datatype panic = SliceBoundsOutOfRange nat nat

definition slice :: "string \<Rightarrow> nat \<Rightarrow> nat \<Rightarrow> panic + string" where
  "slice s lo hi =
     (if length s < hi then Inl (SliceBoundsOutOfRange hi (length s))
      else if hi < lo then Inl (SliceBoundsOutOfRange lo hi)
      else Inr (take (hi - lo) (drop lo s)))"

text \<open>
  \<open>utf8.DecodeRuneInString\<close>, of which only the returned width matters here: the table
  \<open>first\<close> with its accept ranges gives, for a leading byte of a multi-byte sequence, the
  sequence's size and the bounds of the second byte; an ASCII byte, an invalid leading byte
  and a malformed or truncated sequence have width 1.
\<close>

definition first_byte :: "nat \<Rightarrow> (nat \<times> nat \<times> nat) option" where
  "first_byte x =
     (if 0xC2 \<le> x \<and> x \<le> 0xDF then Some (2, 0x80, 0xBF)
      else if x = 0xE0 then Some (3, 0xA0, 0xBF)
      else if 0xE1 \<le> x \<and> x \<le> 0xEC then Some (3, 0x80, 0xBF)
      else if x = 0xED then Some (3, 0x80, 0x9F)
      else if 0xEE \<le> x \<and> x \<le> 0xEF then Some (3, 0x80, 0xBF)
      else if x = 0xF0 then Some (4, 0x90, 0xBF)
      else if 0xF1 \<le> x \<and> x \<le> 0xF3 then Some (4, 0x80, 0xBF)
      else if x = 0xF4 then Some (4, 0x80, 0x8F)
      else None)"

definition byte_between :: "char \<Rightarrow> nat \<Rightarrow> nat \<Rightarrow> bool" where
  "byte_between c lo hi = (lo \<le> (of_char c :: nat) \<and> (of_char c :: nat) \<le> hi)"

fun rune_width :: "string \<Rightarrow> nat" where
  "rune_width [] = 0"
| "rune_width (s0 # rest) =
     (case first_byte (of_char s0) of
        None \<Rightarrow> 1
      | Some (sz, lo, hi) \<Rightarrow>
          if length rest + 1 < sz then 1
          else if \<not> byte_between (rest ! 0) lo hi then 1
          else if sz \<le> 2 then 2
          else if \<not> byte_between (rest ! 1) 0x80 0xBF then 1
          else if sz \<le> 3 then 3
          else if \<not> byte_between (rest ! 2) 0x80 0xBF then 1
          else 4)"

text \<open>
  \<open>strings.Split(s, "")\<close> is \<open>explode(s, -1)\<close>: the string cut into its UTF-8 sequences,
  one string per rune, invalid bytes sliced one by one. The empty string gives the empty
  slice.
\<close>

function explode :: "string \<Rightarrow> string list" where
  "explode s = (if s = [] then [] else take (rune_width s) s # explode (drop (rune_width s) s))"
  by pat_completeness auto
termination
proof (relation "measure length")
  show "wf (measure length)" by simp
next
  fix s :: string
  assume "s \<noteq> []"
  then obtain s0 rest where s: "s = s0 # rest" by (cases s) auto
  have "0 < rune_width (s0 # rest)"
    by (simp split: option.splits prod.splits)
  with s show "(drop (rune_width s) s, s) \<in> measure length" by simp
qed

declare explode.simps [simp del]

text \<open>
  \<open>strconv.Atoi\<close> on a 64-bit platform: an optional sign followed by at least one decimal
  digit and nothing else. The digits are read from the left as \<open>strconv.ParseUint\<close> reads
  them: a byte that is not a digit is a syntax error; an accumulator that has reached the
  cutoff \<open>(1<<64 - 1)/10 + 1\<close>, or a new value above \<open>1<<64 - 1\<close>, is a range error,
  reported as soon as it is met. A magnitude outside the range of \<open>int\<close> is a range error
  too. The error is a \<open>*NumError\<close> carrying the function name, the input and the cause.
  (The fast path of \<open>Atoi\<close> for fewer than 19 bytes cannot overflow and gives the same
  results.)
\<close>

datatype strconv_err = ErrSyntax | ErrRange

datatype NumError = NumError string string strconv_err

definition is_digit :: "char \<Rightarrow> bool" where
  "is_digit ch = byte_between ch 48 57"

definition digit_val :: "char \<Rightarrow> int" where
  "digit_val ch = int (of_char ch) - 48"

fun parse_digits :: "string \<Rightarrow> int \<Rightarrow> strconv_err + int" where
  "parse_digits [] n = Inr n"
| "parse_digits (ch # s) n =
     (if \<not> is_digit ch then Inl ErrSyntax
      else if (2 ^ 64 - 1) div 10 + 1 \<le> n then Inl ErrRange
      else if 2 ^ 64 - 1 < n * 10 + digit_val ch then Inl ErrRange
      else parse_digits s (n * 10 + digit_val ch))"

definition Atoi :: "string \<Rightarrow> NumError + int" where
  "Atoi s0 =
     (if s0 = [] then Inl (NumError ''Atoi'' s0 ErrSyntax)
      else
        let neg = (hd s0 = CHR ''-'');
            s = (if hd s0 = CHR ''-'' \<or> hd s0 = CHR ''+'' then tl s0 else s0)
        in if s = [] then Inl (NumError ''Atoi'' s0 ErrSyntax)
           else case parse_digits s 0 of
                  Inl e \<Rightarrow> Inl (NumError ''Atoi'' s0 e)
                | Inr n \<Rightarrow>
                    if neg then (if 2 ^ 63 < n then Inl (NumError ''Atoi'' s0 ErrRange) else Inr (- n))
                    else (if 2 ^ 63 \<le> n then Inl (NumError ''Atoi'' s0 ErrRange) else Inr n))"

subsection \<open>LuhnValid\<close>

text \<open>
  The loop of \<open>LuhnValid\<close>, \<open>for i, even := len(digits)-1, false; i >= 0; i, even = i-1, !even\<close>.
  The first argument after the slice is \<open>i + 1\<close>, so that the loop ends at 0; \<open>digits ! i\<close>
  is always in range. The function returns the pair \<open>(bool, error)\<close> of the source, the
  error being \<open>None\<close> for \<open>nil\<close>. The sum is at most nine times the number of digits, far
  below the range of a 64-bit \<open>int\<close> for any string that fits in memory, so it is an
  unbounded integer here; it is never negative, so \<open>%\<close> is \<open>mod\<close>.
\<close>

fun luhn_loop :: "string list \<Rightarrow> nat \<Rightarrow> bool \<Rightarrow> int \<Rightarrow> bool \<times> NumError option" where
  "luhn_loop digits 0 evn sm = (sm mod 10 = 0, None)"
| "luhn_loop digits (Suc i) evn sm =
     (case Atoi (digits ! i) of
        Inl err \<Rightarrow> (False, Some err)
      | Inr digit \<Rightarrow>
          luhn_loop digits i (\<not> evn)
            (if evn \<and> digit > 4 then sm + ((digit * 2) - 9)
             else if evn then sm + digit * 2
             else sm + digit))"

definition LuhnValid :: "string \<Rightarrow> bool \<times> NumError option" where
  "LuhnValid number = (let digits = explode number in luhn_loop digits (length digits) False 0)"

subsection \<open>CardType\<close>

text \<open>
  The nested \<open>switch\<close> statements of \<open>CardType\<close>. A Go \<open>switch\<close> runs the first case that
  matches and does not fall through to the next one: when an inner \<open>switch\<close> matches
  nothing, control leaves the outer \<open>switch\<close> too and reaches \<open>return UnknownCard\<close>.
\<close>

definition CardType :: "string \<Rightarrow> panic + string" where
  "CardType number =
     (case slice number 0 1 of Inl p \<Rightarrow> Inl p | Inr c1 \<Rightarrow>
        if c1 = ''4'' then Inr Visa
        else if c1 = ''2'' \<or> c1 = ''1'' then
          (case slice number 0 4 of Inl p \<Rightarrow> Inl p | Inr c4 \<Rightarrow>
             if c4 = ''2131'' \<or> c4 = ''1800'' then Inr JCB
             else Inr UnknownCard)
        else if c1 = ''6'' then
          (case slice number 0 4 of Inl p \<Rightarrow> Inl p | Inr c4 \<Rightarrow>
             if c4 = ''6011'' then Inr Discover
             else Inr UnknownCard)
        else if c1 = ''5'' then
          (case slice number 0 2 of Inl p \<Rightarrow> Inl p | Inr c2 \<Rightarrow>
             if c2 = ''51'' \<or> c2 = ''52'' \<or> c2 = ''53'' \<or> c2 = ''54'' \<or> c2 = ''55''
             then Inr MasterCard
             else Inr UnknownCard)
        else if c1 = ''3'' then
          (case slice number 0 2 of Inl p \<Rightarrow> Inl p | Inr c2 \<Rightarrow>
             if c2 = ''34'' \<or> c2 = ''37'' then Inr AmericanExpress
             else if c2 = ''36'' then Inr DinersClub
             else if c2 = ''30'' then
               (case slice number 0 3 of Inl p \<Rightarrow> Inl p | Inr c3 \<Rightarrow>
                  if c3 = ''300'' \<or> c3 = ''301'' \<or> c3 = ''302'' \<or> c3 = ''303''
                     \<or> c3 = ''304'' \<or> c3 = ''305''
                  then Inr DinersClub
                  else Inr UnknownCard)
             else Inr JCB)
        else Inr UnknownCard)"

subsection \<open>The Luhn sum as the specification words it\<close>

text \<open>
  The sum of the specification, on the digit values listed from the rightmost to the leftmost:
  a digit whose doubling flag is set contributes its double, reduced by 9 when the double
  exceeds 9; a digit whose flag is not set contributes itself; the flag alternates.
\<close>

definition luhn_term_spec :: "bool \<Rightarrow> int \<Rightarrow> int" where
  "luhn_term_spec flag d = (if flag then (if d * 2 > 9 then d * 2 - 9 else d * 2) else d)"

fun luhn_sum_spec :: "int list \<Rightarrow> bool \<Rightarrow> int" where
  "luhn_sum_spec [] flag = 0"
| "luhn_sum_spec (d # ds) flag = luhn_term_spec flag d + luhn_sum_spec ds (\<not> flag)"

subsection \<open>Vocabulary of the statements about \<open>CardType\<close>\<close>

text \<open>The closed set of labels the classifier can return.\<close>

definition brands :: "string set" where
  "brands = {AmericanExpress, DinersClub, Discover, JCB, MasterCard, Visa, UnknownCard}"

text \<open>
  The prefixes listed in the specification's table, the bare \<open>3\<close> apart: \<open>4\<close>;
  \<open>2131\<close>, \<open>1800\<close>; \<open>6011\<close>; \<open>51\<close> to \<open>55\<close>; \<open>34\<close>, \<open>37\<close>; \<open>36\<close>;
  \<open>300\<close> to \<open>305\<close>.
\<close>

definition listed_prefix :: "string \<Rightarrow> bool" where
  "listed_prefix s \<longleftrightarrow>
     take 1 s = ''4''
     \<or> take 4 s \<in> {''2131'', ''1800'', ''6011''}
     \<or> take 2 s \<in> {''51'', ''52'', ''53'', ''54'', ''55'', ''34'', ''37'', ''36''}
     \<or> take 3 s \<in> {''300'', ''301'', ''302'', ''303'', ''304'', ''305''}"

text \<open>
  The inputs on which a slice expression of \<open>CardType\<close> exceeds the string: the empty
  string at \<open>card[0:1]\<close>; fewer than four bytes after a leading \<open>1\<close>, \<open>2\<close> or \<open>6\<close> at
  \<open>card[0:4]\<close>; a single byte \<open>3\<close> or \<open>5\<close> at \<open>card[0:2]\<close>; the two bytes \<open>30\<close> at
  \<open>card[0:3]\<close>.
\<close>

definition slice_panics :: "string \<Rightarrow> bool" where
  "slice_panics s \<longleftrightarrow>
     s = []
     \<or> (take 1 s \<in> {''1'', ''2'', ''6''} \<and> length s < 4)
     \<or> (take 1 s \<in> {''3'', ''5''} \<and> length s < 2)
     \<or> (take 2 s = ''30'' \<and> length s < 3)"

section \<open>Properties\<close>

subsection \<open>Digits, \<open>Atoi\<close> and \<open>explode\<close>\<close>

lemma is_digit_bounds: "is_digit c \<longleftrightarrow> 48 \<le> (of_char c :: nat) \<and> (of_char c :: nat) \<le> 57"
  by (simp add: is_digit_def byte_between_def)

lemma digit_val_range: "is_digit c \<Longrightarrow> 0 \<le> digit_val c \<and> digit_val c \<le> 9"
  by (auto simp: is_digit_bounds digit_val_def)

lemma is_digit_not_sign: "is_digit c \<Longrightarrow> c \<noteq> CHR ''-'' \<and> c \<noteq> CHR ''+''"
  by (auto simp: is_digit_bounds)

lemma Atoi_digit: "is_digit c \<Longrightarrow> Atoi [c] = Inr (digit_val c)"
  using digit_val_range [of c] is_digit_not_sign [of c]
  by (simp add: Atoi_def Let_def)

lemma Atoi_single_error: "\<not> is_digit c \<Longrightarrow> isl (Atoi [c])"
  by (simp add: Atoi_def Let_def)

lemma first_byte_Some_ge: "first_byte x = Some t \<Longrightarrow> 0xC2 \<le> x"
  by (auto simp: first_byte_def split: if_splits)

lemma Atoi_lead_error:
  assumes "first_byte (of_char c) = Some t"
  shows "isl (Atoi (c # xs))"
proof -
  from assms have ge: "0xC2 \<le> (of_char c :: nat)" by (rule first_byte_Some_ge)
  then have nd: "\<not> is_digit c" by (simp add: is_digit_bounds)
  from ge have "c \<noteq> CHR ''-''" "c \<noteq> CHR ''+''" by auto
  with nd show ?thesis by (simp add: Atoi_def Let_def)
qed

lemma rune_width_None: "first_byte (of_char s0) = None \<Longrightarrow> rune_width (s0 # rest) = 1"
  by simp

lemma rune_width_pos: "0 < rune_width (s0 # rest)"
  by (simp split: option.splits prod.splits)

lemma rune_width_digit: "is_digit c \<Longrightarrow> rune_width (c # rest) = 1"
proof -
  assume "is_digit c"
  then have "(of_char c :: nat) \<le> 57" by (simp add: is_digit_bounds)
  then have "first_byte (of_char c) = None" by (simp add: first_byte_def)
  then show ?thesis by (rule rune_width_None)
qed

declare rune_width.simps(2) [simp del]

lemma explode_Nil: "explode [] = []"
  by (simp add: explode.simps)

lemma explode_Cons:
  "explode (c # s) = take (rune_width (c # s)) (c # s) # explode (drop (rune_width (c # s)) (c # s))"
  by (subst explode.simps) simp

lemma explode_digits: "\<forall>c\<in>set s. is_digit c \<Longrightarrow> explode s = map (\<lambda>c. [c]) s"
proof (induction s)
  case Nil
  show ?case by (simp add: explode_Nil)
next
  case (Cons c s)
  then have "rune_width (c # s) = 1" by (simp add: rune_width_digit)
  with Cons show ?case by (simp add: explode_Cons)
qed

lemma explode_has_error: "\<exists>c\<in>set s. \<not> is_digit c \<Longrightarrow> \<exists>r\<in>set (explode s). isl (Atoi r)"
proof (induction s rule: explode.induct)
  case (1 s)
  from "1.prems" obtain s0 rest where s: "s = s0 # rest" by (cases s) auto
  let ?w = "rune_width s"
  have ex: "explode s = take ?w s # explode (drop ?w s)"
    unfolding s by (rule explode_Cons)
  show ?case
  proof (cases "first_byte (of_char s0)")
    case None
    then have "rune_width (s0 # rest) = 1" by (rule rune_width_None)
    then have w: "?w = 1" by (simp only: s)
    from w s have tk: "take ?w s = [s0]" and dr: "drop ?w s = rest" by simp_all
    show ?thesis
    proof (cases "is_digit s0")
      case True
      with "1.prems" s dr have "\<exists>c\<in>set (drop ?w s). \<not> is_digit c" by simp
      with "1.IH" s have "\<exists>r\<in>set (explode (drop ?w s)). isl (Atoi r)" by blast
      with ex show ?thesis by simp
    next
      case False
      then have "isl (Atoi [s0])" by (rule Atoi_single_error)
      then have "isl (Atoi (take ?w s))" by (simp only: tk)
      with ex show ?thesis by simp
    qed
  next
    case (Some t)
    have "0 < rune_width (s0 # rest)" by (rule rune_width_pos)
    then obtain k where k: "rune_width (s0 # rest) = Suc k" by (cases "rune_width (s0 # rest)") auto
    then have "take ?w s = s0 # take k rest" by (simp add: s)
    moreover from Some have "isl (Atoi (s0 # take k rest))" by (rule Atoi_lead_error)
    ultimately have "isl (Atoi (take ?w s))" by simp
    with ex show ?thesis by simp
  qed
qed

lemma luhn_loop_err:
  "\<exists>i<n. isl (Atoi (ds ! i)) \<Longrightarrow>
     fst (luhn_loop ds n e a) = False \<and> snd (luhn_loop ds n e a) \<noteq> None"
proof (induction n arbitrary: e a)
  case 0
  then show ?case by simp
next
  case (Suc n)
  show ?case
  proof (cases "Atoi (ds ! n)")
    case (Inl err)
    then show ?thesis by simp
  next
    case (Inr d)
    with Suc.prems have "\<exists>i<n. isl (Atoi (ds ! i))"
      by (metis less_Suc_eq sum.disc(2))
    with Suc.IH Inr show ?thesis by simp
  qed
qed

lemma luhn_loop_fst_err:
  "snd (luhn_loop ds n e a) \<noteq> None \<Longrightarrow> fst (luhn_loop ds n e a) = False"
  by (induction n arbitrary: e a) (auto split: sum.splits)

lemma luhn_loop_digits:
  assumes "\<forall>c\<in>set s. is_digit c" and "n \<le> length s"
  shows "luhn_loop (map (\<lambda>c. [c]) s) n e a =
           ((a + luhn_sum_spec (rev (map digit_val (take n s))) e) mod 10 = 0, None)"
  using assms(2)
proof (induction n arbitrary: e a)
  case 0
  show ?case by simp
next
  case (Suc n)
  then have n: "n < length s" by simp
  with assms(1) have dg: "is_digit (s ! n)" by simp
  have tk: "take (Suc n) s = take n s @ [s ! n]"
    using n by (simp add: take_Suc_conv_app_nth)
  from digit_val_range [OF dg] have "(4 < digit_val (s ! n)) = (9 < digit_val (s ! n) * 2)"
    by auto
  with Suc.IH n dg show ?case
    by (simp add: tk Atoi_digit luhn_term_spec_def add.assoc)
qed

lemma LuhnValid_digits:
  assumes "\<forall>c\<in>set s. is_digit c"
  shows "LuhnValid s = (luhn_sum_spec (rev (map digit_val s)) False mod 10 = 0, None)"
  using luhn_loop_digits [OF assms, of "length s" False 0]
  by (simp add: LuhnValid_def explode_digits [OF assms])

lemma luhn_sum_spec_append_zero: "luhn_sum_spec (xs @ [0]) flag = luhn_sum_spec xs flag"
  by (induction xs arbitrary: flag) (simp_all add: luhn_term_spec_def)

lemma is_digit_zero: "is_digit CHR ''0''"
  by (simp add: is_digit_bounds)

lemma digit_val_zero: "digit_val CHR ''0'' = 0"
  by (simp add: digit_val_def)

lemma luhn_term_spec_range: "0 \<le> d \<Longrightarrow> d \<le> 9 \<Longrightarrow> 0 \<le> luhn_term_spec f d \<and> luhn_term_spec f d \<le> 9"
  by (auto simp: luhn_term_spec_def)

lemma luhn_term_spec_inj:
  fixes a b :: int
  assumes "0 \<le> a" "a \<le> 9" "0 \<le> b" "b \<le> 9" "luhn_term_spec f a = luhn_term_spec f b"
  shows "a = b"
proof (cases f)
  case False
  with assms(5) show ?thesis by (simp add: luhn_term_spec_def)
next
  case True
  with assms(5) have "(if a * 2 > 9 then a * 2 - 9 else a * 2) = (if b * 2 > 9 then b * 2 - 9 else b * 2)"
    by (simp add: luhn_term_spec_def)
  then show ?thesis by (simp split: if_splits) presburger+
qed

lemma luhn_sum_spec_update:
  "i < length xs \<Longrightarrow>
   luhn_sum_spec (xs[i := d]) f =
     luhn_sum_spec xs f - luhn_term_spec (f \<noteq> odd i) (xs ! i) + luhn_term_spec (f \<noteq> odd i) d"
proof (induction xs arbitrary: i f)
  case Nil
  then show ?case by simp
next
  case (Cons x xs)
  show ?case
  proof (cases i)
    case 0
    then show ?thesis by simp
  next
    case (Suc j)
    with Cons.prems have "j < length xs" by simp
    from Cons.IH [OF this, of "\<not> f"] Suc show ?thesis by auto
  qed
qed

lemma mod10_diff:
  fixes t u S :: int
  assumes "0 \<le> t" "t \<le> 9" "0 \<le> u" "u \<le> 9" "S mod 10 = 0" "(S - t + u) mod 10 = 0"
  shows "t = u"
proof -
  from assms(5,6) have "10 dvd S" "10 dvd (S - t + u)" by (simp_all add: dvd_eq_mod_eq_0)
  then have "10 dvd (S - t + u) - S" by (simp only: dvd_diff)
  then have "10 dvd u - t" by simp
  then obtain k where "u - t = 10 * k" ..
  with assms(1-4) show ?thesis by arith
qed

subsection \<open>The checksum\<close>

text \<open>
  C1. On a string of decimal digits only, \<open>LuhnValid\<close> returns no error and the boolean
  "the Luhn sum is divisible by 10", the sum being the one the specification describes:
  digits taken from the rightmost to the leftmost, the doubling flag false for the rightmost
  digit and alternating, a doubled digit reduced by 9 when the double exceeds 9.
\<close>

theorem LuhnValid_luhn_sum:
  assumes "\<forall>c\<in>set s. is_digit c"
  shows "LuhnValid s = (luhn_sum_spec (rev (map digit_val s)) False mod 10 = 0, None)"
  using assms by (rule LuhnValid_digits)

theorem LuhnValid_luhn_sum_witness:
  "list_all is_digit ''79927398713'' \<and>
   LuhnValid ''79927398713'' =
     (luhn_sum_spec (rev (map digit_val ''79927398713'')) False mod 10 = 0, None) \<and>
   luhn_sum_spec (rev (map digit_val ''79927398713'')) False = 70"
proof -
  have h: "\<forall>c\<in>set ''79927398713''. is_digit c"
    by (simp add: is_digit_bounds)
  have v: "luhn_sum_spec (rev (map digit_val ''79927398713'')) False = 70"
    by (simp add: digit_val_def luhn_term_spec_def)
  from h have "list_all is_digit ''79927398713''" by (simp only: list_all_iff)
  with LuhnValid_luhn_sum [OF h] v show ?thesis by blast
qed

text \<open>
  C5. \<open>LuhnValid\<close> returns an error exactly when some character of the input is not a
  decimal digit, and then the boolean is false; so a character that is not a digit is never
  counted as zero. The statement is given on the bytes of the string and on its runes (the
  pieces \<open>strings.Split\<close> yields): every byte of a character outside ASCII is above
  \<open>0x7F\<close>, so the two readings agree.
\<close>

theorem LuhnValid_error_iff:
  "(snd (LuhnValid s) \<noteq> None \<longleftrightarrow> (\<exists>c\<in>set s. \<not> is_digit c)) \<and>
   (snd (LuhnValid s) \<noteq> None \<longleftrightarrow> (\<exists>r\<in>set (explode s). \<not> (\<exists>c. r = [c] \<and> is_digit c))) \<and>
   (snd (LuhnValid s) \<noteq> None \<longrightarrow> fst (LuhnValid s) = False)"
proof -
  let ?ds = "explode s"
  have L: "LuhnValid s = luhn_loop ?ds (length ?ds) False 0"
    by (simp add: LuhnValid_def Let_def)
  have bytes: "snd (LuhnValid s) \<noteq> None \<longleftrightarrow> (\<exists>c\<in>set s. \<not> is_digit c)"
  proof
    assume e: "snd (LuhnValid s) \<noteq> None"
    show "\<exists>c\<in>set s. \<not> is_digit c"
    proof (rule ccontr)
      assume "\<not> (\<exists>c\<in>set s. \<not> is_digit c)"
      then have "\<forall>c\<in>set s. is_digit c" by blast
      then have "snd (LuhnValid s) = None" by (simp add: LuhnValid_digits)
      with e show False by contradiction
    qed
  next
    assume "\<exists>c\<in>set s. \<not> is_digit c"
    then obtain r where "r \<in> set ?ds" "isl (Atoi r)"
      using explode_has_error by blast
    then have "\<exists>i<length ?ds. isl (Atoi (?ds ! i))"
      by (metis in_set_conv_nth)
    then show "snd (LuhnValid s) \<noteq> None"
      unfolding L by (simp add: luhn_loop_err)
  qed
  have runes: "(\<exists>c\<in>set s. \<not> is_digit c) \<longleftrightarrow>
                 (\<exists>r\<in>set ?ds. \<not> (\<exists>c. r = [c] \<and> is_digit c))"
  proof
    assume "\<exists>c\<in>set s. \<not> is_digit c"
    then obtain r where r: "r \<in> set ?ds" "isl (Atoi r)"
      using explode_has_error by blast
    then have "\<not> (\<exists>c. r = [c] \<and> is_digit c)"
      by (auto simp: Atoi_digit)
    with r(1) show "\<exists>r\<in>set ?ds. \<not> (\<exists>c. r = [c] \<and> is_digit c)" by blast
  next
    assume a: "\<exists>r\<in>set ?ds. \<not> (\<exists>c. r = [c] \<and> is_digit c)"
    show "\<exists>c\<in>set s. \<not> is_digit c"
    proof (rule ccontr)
      assume "\<not> (\<exists>c\<in>set s. \<not> is_digit c)"
      then have d: "\<forall>c\<in>set s. is_digit c" by blast
      then have "?ds = map (\<lambda>c. [c]) s" by (rule explode_digits)
      with d have "\<forall>r\<in>set ?ds. \<exists>c. r = [c] \<and> is_digit c" by auto
      with a show False by blast
    qed
  qed
  have "snd (LuhnValid s) \<noteq> None \<longrightarrow> fst (LuhnValid s) = False"
    unfolding L by (simp add: luhn_loop_fst_err)
  with bytes runes show ?thesis by simp
qed

theorem LuhnValid_error_iff_witness:
  "(\<exists>c\<in>set ''12a4''. \<not> is_digit c) \<and> snd (LuhnValid ''12a4'') \<noteq> None \<and>
   fst (LuhnValid ''12a4'') = False"
proof -
  have h: "\<exists>c\<in>set ''12a4''. \<not> is_digit c"
    by (simp add: is_digit_bounds)
  with LuhnValid_error_iff [of "''12a4''"] show ?thesis by blast
qed

text \<open>
  C7, as the code has it. \<open>strings.Split\<close> of the empty string is the empty slice, the
  loop body never runs, the sum stays 0 and \<open>0 % 10 == 0\<close>: the empty string is reported
  valid, with no error.
\<close>

theorem LuhnValid_empty:
  "LuhnValid [] = (True, None)"
  by (simp add: LuhnValid_def explode_Nil)

text \<open>The boolean returned for the empty string is not "invalid".\<close>

theorem LuhnValid_empty_not_invalid:
  "fst (LuhnValid []) \<noteq> False"
  by (simp add: LuhnValid_def explode_Nil)

text \<open>
  C8. On a single decimal digit \<open>d\<close>, \<open>LuhnValid\<close> returns no error, and true exactly when
  the digit is \<open>0\<close>: the lone digit is taken with the flag false and is not doubled.
\<close>

theorem LuhnValid_single_digit:
  assumes "is_digit d"
  shows "LuhnValid [d] = (d = CHR ''0'', None)"
proof -
  from assms have r: "0 \<le> digit_val d" "digit_val d \<le> 9" by (simp_all add: digit_val_range)
  then have "(digit_val d mod 10 = 0) = (digit_val d = 0)" by auto
  also have "\<dots> = ((of_char d :: nat) = 48)" by (auto simp: digit_val_def)
  also have "\<dots> = ((of_char d :: nat) = of_char CHR ''0'')" by simp
  also have "\<dots> = (d = CHR ''0'')" by (rule of_char_eq_iff)
  finally have "(digit_val d mod 10 = 0) = (d = CHR ''0'')" .
  moreover have "LuhnValid [d] = (digit_val d mod 10 = 0, None)"
    using assms by (simp add: LuhnValid_digits luhn_term_spec_def)
  ultimately show ?thesis by simp
qed

theorem LuhnValid_single_digit_witness:
  "is_digit CHR ''7'' \<and> LuhnValid ''7'' = (False, None) \<and>
   is_digit CHR ''0'' \<and> LuhnValid ''0'' = (True, None)"
proof -
  have a: "is_digit CHR ''7''" and b: "is_digit CHR ''0''"
    by (simp_all add: is_digit_bounds)
  from a b LuhnValid_single_digit [OF a] LuhnValid_single_digit [OF b] show ?thesis by simp
qed


text \<open>
  C6. In a string of digits that passes the checksum, replacing the digit at any one position
  by any other decimal digit gives a string that fails it (without error): the contribution
  of a digit, doubled or not, is a one-to-one function of the digit with values in 0..9.
\<close>

theorem LuhnValid_single_digit_change:
  assumes dg: "\<forall>c\<in>set s. is_digit c"
    and valid: "fst (LuhnValid s)"
    and i: "i < length s"
    and d: "is_digit d"
    and ne: "d \<noteq> s ! i"
  shows "LuhnValid (s[i := d]) = (False, None)"
proof -
  define xs where "xs = rev (map digit_val s)"
  define j where "j = length s - i - 1"
  define f where "f = (False \<noteq> odd j)"
  define S where "S = luhn_sum_spec xs False"
  define t where "t = luhn_term_spec f (digit_val (s ! i))"
  define u where "u = luhn_term_spec f (digit_val d)"
  have dg': "\<forall>c\<in>set (s[i := d]). is_digit c"
  proof
    fix c assume "c \<in> set (s[i := d])"
    then have "c \<in> insert d (set s)" using set_update_subset_insert by fast
    with dg d show "is_digit c" by auto
  qed
  have j: "j < length xs" using i by (simp add: j_def xs_def)
  have nth: "xs ! j = digit_val (s ! i)"
    using i by (simp add: xs_def j_def rev_nth)
  have upd: "rev (map digit_val (s[i := d])) = xs[j := digit_val d]"
    using i by (simp add: xs_def j_def map_update rev_update)
  have "LuhnValid s = (S mod 10 = 0, None)"
    unfolding S_def xs_def using dg by (rule LuhnValid_digits)
  with valid have S: "S mod 10 = 0" by simp
  have sum: "luhn_sum_spec (xs[j := digit_val d]) False = S - t + u"
    unfolding S_def t_def u_def f_def nth [symmetric] using j by (rule luhn_sum_spec_update)
  from dg i have si: "is_digit (s ! i)" by simp
  have rt: "0 \<le> t \<and> t \<le> 9" unfolding t_def
    using digit_val_range [OF si] by (simp add: luhn_term_spec_range)
  have ru: "0 \<le> u \<and> u \<le> 9" unfolding u_def
    using digit_val_range [OF d] by (simp add: luhn_term_spec_range)
  have "(S - t + u) mod 10 \<noteq> 0"
  proof
    assume z: "(S - t + u) mod 10 = 0"
    from rt ru S z mod10_diff [of t u S] have "t = u" by simp
    then have "luhn_term_spec f (digit_val (s ! i)) = luhn_term_spec f (digit_val d)"
      by (simp only: t_def u_def)
    with digit_val_range [OF si] digit_val_range [OF d]
      luhn_term_spec_inj [of "digit_val (s ! i)" "digit_val d" f]
    have "digit_val (s ! i) = digit_val d"
      by simp
    then have "(of_char (s ! i) :: nat) = of_char d"
      by (simp add: digit_val_def)
    then have "s ! i = d" by (rule of_char_eqI)
    with ne show False by simp
  qed
  moreover have "LuhnValid (s[i := d]) = ((S - t + u) mod 10 = 0, None)"
    unfolding sum [symmetric] upd [symmetric] using dg' by (rule LuhnValid_digits)
  ultimately show ?thesis by simp
qed

theorem LuhnValid_single_digit_change_witness:
  "list_all is_digit ''4242424242424242'' \<and> fst (LuhnValid ''4242424242424242'') \<and>
   3 < length ''4242424242424242'' \<and> is_digit CHR ''7'' \<and>
   CHR ''7'' \<noteq> ''4242424242424242'' ! 3 \<and>
   ''4242424242424242''[3 := CHR ''7''] = ''4247424242424242'' \<and>
   LuhnValid ''4247424242424242'' = (False, None)"
proof -
  have a: "\<forall>c\<in>set ''4242424242424242''. is_digit c" by (simp add: is_digit_bounds)
  have b: "fst (LuhnValid ''4242424242424242'')" by code_simp
  have c: "3 < length ''4242424242424242''" by simp
  have d: "is_digit CHR ''7''" by (simp add: is_digit_bounds)
  have e: "CHR ''7'' \<noteq> ''4242424242424242'' ! 3" by code_simp
  have f: "''4242424242424242''[3 := CHR ''7''] = ''4247424242424242''" by code_simp
  from LuhnValid_single_digit_change [OF a b c d e]
  have "LuhnValid ''4247424242424242'' = (False, None)" by (simp only: f)
  moreover from a have "list_all is_digit ''4242424242424242''" by (simp only: list_all_iff)
  ultimately show ?thesis using b c d e f by blast
qed

text \<open>
  C10. A \<open>0\<close> written in front of a string of digits does not change the result: the new
  leftmost digit contributes 0 whether it is doubled or not, and the flags of the other
  digits, counted from the right, stay as they were.
\<close>

theorem LuhnValid_leading_zero:
  assumes "\<forall>c\<in>set s. is_digit c"
  shows "LuhnValid (CHR ''0'' # s) = LuhnValid s"
proof -
  from assms have "\<forall>c\<in>set (CHR ''0'' # s). is_digit c" by (simp add: is_digit_zero)
  then have "LuhnValid (CHR ''0'' # s) =
      (luhn_sum_spec (rev (map digit_val (CHR ''0'' # s))) False mod 10 = 0, None)"
    by (rule LuhnValid_digits)
  also have "\<dots> = (luhn_sum_spec (rev (map digit_val s)) False mod 10 = 0, None)"
    by (simp add: digit_val_zero luhn_sum_spec_append_zero)
  also have "\<dots> = LuhnValid s" using assms by (simp add: LuhnValid_digits)
  finally show ?thesis .
qed

theorem LuhnValid_leading_zero_witness:
  "list_all is_digit ''4242424242424242'' \<and>
   LuhnValid ''04242424242424242'' = LuhnValid ''4242424242424242''"
proof -
  have h: "\<forall>c\<in>set ''4242424242424242''. is_digit c" by (simp add: is_digit_bounds)
  from h have "list_all is_digit ''4242424242424242''" by (simp only: list_all_iff)
  with LuhnValid_leading_zero [OF h] show ?thesis by simp
qed

subsection \<open>The classifier\<close>

lemma slice_0: "slice s 0 hi = (if length s < hi then Inl (SliceBoundsOutOfRange hi (length s)) else Inr (take hi s))"
  by (simp add: slice_def)

lemma CardType_long:
  "CardType (a # b # c # d # rest) =
     (if a = CHR ''4'' then Inr Visa
      else if a = CHR ''2'' \<or> a = CHR ''1'' then
        (if [a, b, c, d] = ''2131'' \<or> [a, b, c, d] = ''1800'' then Inr JCB else Inr UnknownCard)
      else if a = CHR ''6'' then
        (if [a, b, c, d] = ''6011'' then Inr Discover else Inr UnknownCard)
      else if a = CHR ''5'' then
        (if b \<in> set ''12345'' then Inr MasterCard else Inr UnknownCard)
      else if a = CHR ''3'' then
        (if b = CHR ''4'' \<or> b = CHR ''7'' then Inr AmericanExpress
         else if b = CHR ''6'' then Inr DinersClub
         else if b = CHR ''0'' then
           (if c \<in> set ''012345'' then Inr DinersClub else Inr UnknownCard)
         else Inr JCB)
      else Inr UnknownCard)"
  by (simp add: CardType_def slice_0)

lemma CardType_long_brand: "\<exists>l\<in>brands. CardType (a # b # c # d # rest) = Inr l"
  unfolding CardType_long by (simp add: brands_def)

lemma CardType_panic_iff: "(\<exists>p. CardType s = Inl p) \<longleftrightarrow> slice_panics s"
proof (cases s)
  case Nil
  then show ?thesis by (simp add: CardType_def slice_0 slice_panics_def)
next
  case s1: (Cons a s')
  show ?thesis
  proof (cases s')
    case Nil
    with s1 show ?thesis by (simp add: CardType_def slice_0 slice_panics_def)
  next
    case s2: (Cons b s'')
    show ?thesis
    proof (cases s'')
      case Nil
      with s1 s2 show ?thesis by (simp add: CardType_def slice_0 slice_panics_def)
    next
      case s3: (Cons c s''')
      show ?thesis
      proof (cases s''')
        case Nil
        with s1 s2 s3 show ?thesis by (simp add: CardType_def slice_0 slice_panics_def)
      next
        case (Cons d rest)
        with s1 s2 s3 have s: "s = a # b # c # d # rest" by simp
        have "\<not> slice_panics s" by (simp add: s slice_panics_def)
        moreover have "\<not> (\<exists>p. CardType s = Inl p)"
          using CardType_long_brand [of a b c d rest] by (auto simp: s)
        ultimately show ?thesis by simp
      qed
    qed
  qed
qed

lemma length_ge_4D:
  assumes "4 \<le> length s"
  shows "\<exists>a b c d rest. s = a # b # c # d # rest"
proof -
  from assms have "Suc (Suc (Suc (Suc 0))) \<le> length s" by simp
  then show ?thesis by (auto simp: Suc_le_length_iff)
qed

lemma CardType_label: "CardType s = Inr l \<Longrightarrow> l \<in> brands"
  by (auto simp: CardType_def brands_def split: sum.splits if_splits)

lemma CardType_cases: "(\<exists>p. CardType s = Inl p) \<or> (\<exists>l\<in>brands. CardType s = Inr l)"
proof (cases "CardType s")
  case (Inl p)
  then show ?thesis by simp
next
  case (Inr l)
  then show ?thesis by (simp add: CardType_label)
qed

lemma CardType_3_default:
  assumes "4 \<le> length s" and "take 1 s = ''3''"
    and "take 2 s \<notin> {''34'', ''37'', ''36'', ''30''}"
  shows "CardType s = Inr JCB"
proof -
  from assms(1) obtain a b c d rest where s: "s = a # b # c # d # rest"
    using length_ge_4D by blast
  from assms(2,3) show ?thesis
    unfolding s CardType_long by simp
qed

lemma CardType_at_least_4:
  assumes "4 \<le> length s"
  shows "\<exists>l\<in>brands. CardType s = Inr l"
  using assms length_ge_4D [of s] CardType_long_brand by blast

text \<open>
  C2, at the input where the code departs from it. The doc comment of \<open>CardType\<close> says
  that a number which is not recognised gives \<open>"Unknown"\<close>, and the function accepts any
  string; the claim asks for a brand label on every input, and for JCB on \<open>"3"\<close>. The
  code takes \<open>card[0:2]\<close> without looking at the length, and on the one-byte string
  \<open>"3"\<close> that slice expression panics: no label is returned. On a string of at least four
  bytes every slice fits and a label is returned (lemma \<open>CardType_at_least_4\<close>); the
  strings on which a slice does not fit are those of lemma \<open>CardType_panic_iff\<close>.
\<close>

theorem CardType_3_panics:
  "CardType ''3'' = Inl (SliceBoundsOutOfRange 2 1) \<and> CardType ''3'' \<noteq> Inr JCB"
  by (simp add: CardType_def slice_0)

text \<open>
  C3. On a string of at least four bytes: a leading \<open>4\<close> is Visa; \<open>2131\<close> and \<open>1800\<close>
  are JCB; \<open>6011\<close> is Discover; \<open>51\<close> to \<open>55\<close> are MasterCard; \<open>34\<close> and \<open>37\<close> are
  American Express; \<open>36\<close> and \<open>300\<close> to \<open>305\<close> are Diners Club; a first byte that is
  none of \<open>1\<close> to \<open>6\<close> is Unknown, and so is a leading \<open>1\<close>, \<open>2\<close>, \<open>4\<close>, \<open>5\<close> or
  \<open>6\<close> that matches none of the listed prefixes.
\<close>

theorem CardType_prefixes:
  assumes "4 \<le> length s"
  shows "(take 1 s = ''4'' \<longrightarrow> CardType s = Inr Visa) \<and>
     (take 4 s = ''2131'' \<or> take 4 s = ''1800'' \<longrightarrow> CardType s = Inr JCB) \<and>
     (take 4 s = ''6011'' \<longrightarrow> CardType s = Inr Discover) \<and>
     (take 2 s \<in> {''51'', ''52'', ''53'', ''54'', ''55''} \<longrightarrow> CardType s = Inr MasterCard) \<and>
     (take 2 s \<in> {''34'', ''37''} \<longrightarrow> CardType s = Inr AmericanExpress) \<and>
     (take 2 s = ''36'' \<or> take 3 s \<in> {''300'', ''301'', ''302'', ''303'', ''304'', ''305''}
        \<longrightarrow> CardType s = Inr DinersClub) \<and>
     (take 1 s \<notin> {''1'', ''2'', ''3'', ''4'', ''5'', ''6''} \<longrightarrow> CardType s = Inr UnknownCard) \<and>
     (take 1 s \<in> {''1'', ''2'', ''4'', ''5'', ''6''} \<and> \<not> listed_prefix s
        \<longrightarrow> CardType s = Inr UnknownCard)"
proof -
  from assms obtain a b c d rest where s: "s = a # b # c # d # rest"
    using length_ge_4D by blast
  show ?thesis
    unfolding s CardType_long by (simp add: listed_prefix_def)
qed

theorem CardType_prefixes_witness:
  "4 \<le> length ''4242424242424242'' \<and> take 1 ''4242424242424242'' = ''4'' \<and>
     CardType ''4242424242424242'' = Inr Visa \<and>
   4 \<le> length ''180000000000000'' \<and> take 4 ''180000000000000'' = ''1800'' \<and>
     CardType ''180000000000000'' = Inr JCB \<and>
   4 \<le> length ''6011000000000004'' \<and> take 4 ''6011000000000004'' = ''6011'' \<and>
     CardType ''6011000000000004'' = Inr Discover \<and>
   4 \<le> length ''5105105105105100'' \<and>
     take 2 ''5105105105105100'' \<in> {''51'', ''52'', ''53'', ''54'', ''55''} \<and>
     CardType ''5105105105105100'' = Inr MasterCard \<and>
   4 \<le> length ''341111111111111'' \<and> take 2 ''341111111111111'' \<in> {''34'', ''37''} \<and>
     CardType ''341111111111111'' = Inr AmericanExpress \<and>
   4 \<le> length ''30569309025904'' \<and>
     take 3 ''30569309025904'' \<in> {''300'', ''301'', ''302'', ''303'', ''304'', ''305''} \<and>
     CardType ''30569309025904'' = Inr DinersClub \<and>
   4 \<le> length ''0000000000000000'' \<and>
     take 1 ''0000000000000000'' \<notin> {''1'', ''2'', ''3'', ''4'', ''5'', ''6''} \<and>
     CardType ''0000000000000000'' = Inr UnknownCard \<and>
   4 \<le> length ''6500000000000002'' \<and>
     take 1 ''6500000000000002'' \<in> {''1'', ''2'', ''4'', ''5'', ''6''} \<and>
     \<not> listed_prefix ''6500000000000002'' \<and>
     CardType ''6500000000000002'' = Inr UnknownCard"
proof -
  have v: "4 \<le> length ''4242424242424242'' \<and> take 1 ''4242424242424242'' = ''4''" by simp
  have j: "4 \<le> length ''180000000000000'' \<and> take 4 ''180000000000000'' = ''1800''" by simp
  have d: "4 \<le> length ''6011000000000004'' \<and> take 4 ''6011000000000004'' = ''6011''" by simp
  have m: "4 \<le> length ''5105105105105100'' \<and>
     take 2 ''5105105105105100'' \<in> {''51'', ''52'', ''53'', ''54'', ''55''}" by simp
  have a: "4 \<le> length ''341111111111111'' \<and> take 2 ''341111111111111'' \<in> {''34'', ''37''}"
    by simp
  have c: "4 \<le> length ''30569309025904'' \<and>
     take 3 ''30569309025904'' \<in> {''300'', ''301'', ''302'', ''303'', ''304'', ''305''}" by simp
  have u: "4 \<le> length ''0000000000000000'' \<and>
     take 1 ''0000000000000000'' \<notin> {''1'', ''2'', ''3'', ''4'', ''5'', ''6''}" by simp
  have w: "4 \<le> length ''6500000000000002'' \<and>
     take 1 ''6500000000000002'' \<in> {''1'', ''2'', ''4'', ''5'', ''6''} \<and>
     \<not> listed_prefix ''6500000000000002''" by (simp add: listed_prefix_def)
  from v CardType_prefixes [of "''4242424242424242''"]
  have 1: "CardType ''4242424242424242'' = Inr Visa" by blast
  from j CardType_prefixes [of "''180000000000000''"]
  have 2: "CardType ''180000000000000'' = Inr JCB" by blast
  from d CardType_prefixes [of "''6011000000000004''"]
  have 3: "CardType ''6011000000000004'' = Inr Discover" by blast
  from m CardType_prefixes [of "''5105105105105100''"]
  have 4: "CardType ''5105105105105100'' = Inr MasterCard" by blast
  from a CardType_prefixes [of "''341111111111111''"]
  have 5: "CardType ''341111111111111'' = Inr AmericanExpress" by blast
  from c CardType_prefixes [of "''30569309025904''"]
  have 6: "CardType ''30569309025904'' = Inr DinersClub" by blast
  from u CardType_prefixes [of "''0000000000000000''"]
  have 7: "CardType ''0000000000000000'' = Inr UnknownCard" by blast
  from w CardType_prefixes [of "''6500000000000002''"]
  have 8: "CardType ''6500000000000002'' = Inr UnknownCard" by blast
  from v j d m a c u w 1 2 3 4 5 6 7 8 show ?thesis by blast
qed

text \<open>
  C4, at the input where the code departs from it. A number that starts with \<open>30\<close> enters
  \<open>case "30"\<close>, whose inner \<open>switch\<close> knows \<open>300\<close> to \<open>305\<close> only; for \<open>306\<close> to
  \<open>309\<close> nothing matches, Go does not fall through to \<open>default : return JCB\<close>, and the
  function ends at \<open>return UnknownCard\<close>. Every other leading \<open>3\<close> that is not American
  Express or Diners Club is JCB (lemma \<open>CardType_3_default\<close>).
\<close>

theorem CardType_306_Unknown:
  "CardType ''3060000000000000'' = Inr UnknownCard \<and> CardType ''3060000000000000'' \<noteq> Inr JCB"
  by (simp add: CardType_long UnknownCard_def JCB_def)

subsection \<open>Test vectors\<close>

text \<open>
  C9. The test vectors: \<open>4242424242424242\<close> passes the checksum and \<open>4242424242424241\<close>
  fails it, both without error; \<open>6011000000000004\<close> is Discover, \<open>341111111111111\<close> is
  American Express and \<open>0000000000000000\<close> is Unknown.
\<close>

theorem test_vectors:
  "LuhnValid ''4242424242424242'' = (True, None) \<and>
   LuhnValid ''4242424242424241'' = (False, None) \<and>
   CardType ''6011000000000004'' = Inr Discover \<and>
   CardType ''341111111111111'' = Inr AmericanExpress \<and>
   CardType ''0000000000000000'' = Inr UnknownCard"
proof -
  have "LuhnValid ''4242424242424242'' = (True, None)" by code_simp
  moreover have "LuhnValid ''4242424242424241'' = (False, None)" by code_simp
  moreover have "CardType ''6011000000000004'' = Inr Discover" by code_simp
  moreover have "CardType ''341111111111111'' = Inr AmericanExpress" by code_simp
  moreover have "CardType ''0000000000000000'' = Inr UnknownCard" by code_simp
  ultimately show ?thesis by simp
qed

end
